theory Spec2Isabelle
  imports Complex_Main "HOL-Library.Word"
begin

unbundle bit_operations_syntax

section \<open>Data model\<close>

text \<open>
  The pixel buffer is the \<open>Uint8ClampedArray\<close> of an \<open>ImageData\<close>: a list of
  8-bit values, four per pixel (R, G, B, A). A JavaScript string is a sequence of UTF-16
  code units; the message and the decoded text are lists of 16-bit values. The strings
  of binary digits that the codec builds internally (\<open>fullBinary\<close>,
  \<open>binaryString\<close>) only ever hold the characters 0 and 1 and are kept as HOL
  strings. Bitwise operators of JavaScript work on 32-bit integers. The other numbers of
  the source are doubles; the bit counts computed from the buffer length are exact in
  them (for any buffer below \<open>2^53\<close> bytes) and are modelled by rationals, lengths
  and parsed values by natural numbers.
\<close>

type_synonym byte = "8 word"
type_synonym js_string = "16 word list"

text \<open>
  A canvas is modelled by the image data its 2d context hands out; \<open>None\<close> stands
  for a canvas whose \<open>getContext('2d')\<close> returns null.
\<close>

type_synonym canvas = "byte list option"

text \<open>
  The four errors thrown by the codec, in the order of the source:
  'Could not get canvas context', 'Image is too small to contain a message.',
  'No valid message found. ...' and 'Image data ended prematurely. ...'.
\<close>

datatype error = NoContext | TooSmall | InvalidHeader | Truncated

text \<open>
  \<open>SteganoResult\<close>. The data URL is a lossless PNG of the canvas after
  \<open>putImageData\<close>; it is represented by the pixel bytes it serialises, the canvas
  being taken to keep the bytes it is given.
\<close>

record SteganoResult =
  dataUrl :: "byte list"
  capacity :: int
  messageLength :: nat

section \<open>String and number primitives of the host language\<close>

definition digit :: "nat \<Rightarrow> char" where
  "digit d = (if d = 0 then CHR ''0'' else CHR ''1'')"

text \<open>\<open>n.toString(2)\<close> for a non-negative integer \<open>n\<close>.\<close>

fun toString2 :: "nat \<Rightarrow> string" where
  "toString2 n = (if n < 2 then [digit n] else toString2 (n div 2) @ [digit (n mod 2)])"

declare toString2.simps [simp del]

text \<open>\<open>s.padStart(w, '0')\<close> and \<open>s.padEnd(w, '0')\<close>: the pad string is always '0'.\<close>

definition padStart :: "nat \<Rightarrow> string \<Rightarrow> string" where
  "padStart w s = replicate (w - length s) (CHR ''0'') @ s"

definition padEnd :: "nat \<Rightarrow> string \<Rightarrow> string" where
  "padEnd w s = s @ replicate (w - length s) (CHR ''0'')"

text \<open>\<open>s.substring(a, b)\<close>: both indices are clamped to the length and swapped if needed.\<close>

definition substring :: "string \<Rightarrow> nat \<Rightarrow> nat \<Rightarrow> string" where
  "substring s a b = drop (min a b) (take (max a b) s)"

definition isBinDigit :: "char \<Rightarrow> bool" where
  "isBinDigit c = (c = CHR ''0'' \<or> c = CHR ''1'')"

definition binValue :: "string \<Rightarrow> nat" where
  "binValue ds = foldl (\<lambda>a c. 2 * a + (if c = CHR ''1'' then 1 else 0)) 0 ds"

text \<open>
  \<open>parseInt(s, 2)\<close>: the value of the longest prefix of binary digits, \<open>None\<close>
  (NaN) when that prefix is empty. The codec only passes strings of binary digits, so
  leading white space and signs are not modelled.
\<close>

definition parseInt2 :: "string \<Rightarrow> nat option" where
  "parseInt2 s =
     (let ds = takeWhile isBinDigit s
      in if ds = [] then None else Some (binValue ds))"

text \<open>\<open>ToInt32\<close> of a parsed number: NaN becomes 0, an integer is taken modulo \<open>2^32\<close>.\<close>

definition toInt32 :: "nat option \<Rightarrow> 32 word" where
  "toInt32 v = (case v of None \<Rightarrow> 0 | Some n \<Rightarrow> of_nat n)"

text \<open>\<open>x << n\<close> on 32-bit integers: only the low five bits of the shift count are used.\<close>

definition shl32 :: "32 word \<Rightarrow> nat \<Rightarrow> 32 word" where
  "shl32 x n = push_bit (n mod 32) x"

text \<open>Storing a (signed) 32-bit integer into a \<open>Uint8ClampedArray\<close> clamps it to 0..255.\<close>

definition toUint8Clamp :: "32 word \<Rightarrow> byte" where
  "toUint8Clamp v = (if sint v < 0 then 0 else if 255 < sint v then 255 else ucast v)"

text \<open>\<open>String.fromCharCode(parseInt(byte, 2))\<close>: \<open>ToUint16\<close> of the number, NaN gives 0.\<close>

definition fromCharCode :: "nat option \<Rightarrow> 16 word" where
  "fromCharCode v = (case v of None \<Rightarrow> 0 | Some n \<Rightarrow> of_nat n)"

section \<open>The codec (src/utils/steganography.ts)\<close>

definition stringToBin :: "js_string \<Rightarrow> string" where
  "stringToBin str = concat (map (\<lambda>char. padStart 8 (toString2 (unat char))) str)"

text \<open>\<open>bin.match(/.{1,8}/g) || []\<close>: groups of eight characters, the last one may be shorter.\<close>

fun chunks8 :: "string \<Rightarrow> string list" where
  "chunks8 s = (if s = [] then [] else take 8 s # chunks8 (drop 8 s))"

declare chunks8.simps [simp del]

definition binToString :: "string \<Rightarrow> js_string" where
  "binToString bin = map (\<lambda>byte. fromCharCode (parseInt2 byte)) (chunks8 bin)"

definition lengthHeader :: "js_string \<Rightarrow> string" where
  "lengthHeader message = padStart 32 (toString2 (length message))"

definition fullBinary :: "js_string \<Rightarrow> string" where
  "fullBinary message = lengthHeader message @ stringToBin message"

text \<open>\<open>const mask = 255 << bitsPerChannel\<close> (named \<open>mask_lsb\<close>: \<open>mask\<close> is a constant of HOL)\<close>

definition mask_lsb :: "nat \<Rightarrow> 32 word" where
  "mask_lsb bitsPerChannel = shl32 255 bitsPerChannel"

text \<open>\<open>data[i] = (data[i] & mask) | valueToHide\<close>\<close>

definition hide :: "nat \<Rightarrow> byte \<Rightarrow> nat option \<Rightarrow> byte" where
  "hide bitsPerChannel old valueToHide =
     toUint8Clamp ((ucast old AND mask_lsb bitsPerChannel) OR toInt32 valueToHide)"

text \<open>
  The \<open>for\<close> loop of \<open>encodeLSB\<close>, with its variables \<open>i\<close>, \<open>bitIndex\<close>
  and the buffer it mutates.
\<close>

function encode_loop :: "string \<Rightarrow> nat \<Rightarrow> nat \<Rightarrow> nat \<Rightarrow> byte list \<Rightarrow> byte list" where
  "encode_loop fb bitsPerChannel i bitIndex data =
     (if i < length data \<and> bitIndex < length fb then
        (if (i + 1) mod 4 = 0 then encode_loop fb bitsPerChannel (i + 1) bitIndex data
         else
           let bitsToHide = substring fb bitIndex (bitIndex + bitsPerChannel);
               valueToHide = parseInt2 (padEnd bitsPerChannel bitsToHide)
           in encode_loop fb bitsPerChannel (i + 1) (bitIndex + bitsPerChannel)
                (data[i := hide bitsPerChannel (data ! i) valueToHide]))
      else data)"
  by pat_completeness auto
termination
  by (relation "measure (\<lambda>(fb, k, i, b, data). length data - i)") auto

declare encode_loop.simps [simp del]

text \<open>\<open>Math.floor((data.length * 3 / 4) * bitsPerChannel / 8)\<close>\<close>

definition encode_capacity :: "byte list \<Rightarrow> nat \<Rightarrow> int" where
  "encode_capacity data bitsPerChannel =
     \<lfloor>(rat_of_nat (length data) * 3 / 4) * rat_of_nat bitsPerChannel / 8\<rfloor>"

definition encodeLSB :: "canvas \<Rightarrow> js_string \<Rightarrow> nat \<Rightarrow> error + SteganoResult" where
  "encodeLSB cv message bitsPerChannel =
     (case cv of
        None \<Rightarrow> Inl NoContext
      | Some data \<Rightarrow>
          Inr \<lparr> dataUrl = encode_loop (fullBinary message) bitsPerChannel 0 0 data,
                capacity = encode_capacity data bitsPerChannel,
                messageLength = length message \<rparr>)"

text \<open>\<open>const bitMask = (1 << bitsPerChannel) - 1\<close>\<close>

definition bitMask :: "nat \<Rightarrow> 32 word" where
  "bitMask bitsPerChannel = shl32 1 bitsPerChannel - 1"

text \<open>\<open>(data[i] & bitMask).toString(2).padStart(bitsPerChannel, '0')\<close>\<close>

definition bits :: "nat \<Rightarrow> byte \<Rightarrow> string" where
  "bits bitsPerChannel b =
     padStart bitsPerChannel (toString2 (unat (ucast b AND bitMask bitsPerChannel)))"

text \<open>
  Both \<open>while\<close> statements of \<open>decodeLSB\<close> are the same loop with a different
  target length; the walk state is the pair of \<open>binaryString\<close> and \<open>i\<close>.
\<close>

function extract_loop :: "byte list \<Rightarrow> nat \<Rightarrow> nat \<Rightarrow> string \<times> nat \<Rightarrow> string \<times> nat" where
  "extract_loop data bitsPerChannel target (binaryString, i) =
     (if length binaryString < target \<and> i < length data then
        extract_loop data bitsPerChannel target
          (if (i + 1) mod 4 \<noteq> 0 then binaryString @ bits bitsPerChannel (data ! i)
           else binaryString, i + 1)
      else (binaryString, i))"
  by pat_completeness auto
termination
  by (relation "measure (\<lambda>(data, k, t, bs, i). length data - i)") auto

declare extract_loop.simps [simp del]

text \<open>\<open>const totalAvailableBits = (data.length / 4) * 3 * bitsPerChannel\<close>\<close>

definition totalAvailableBits :: "byte list \<Rightarrow> nat \<Rightarrow> rat" where
  "totalAvailableBits data bitsPerChannel =
     (rat_of_nat (length data) / 4) * 3 * rat_of_nat bitsPerChannel"

text \<open>
  The end of \<open>decodeLSB\<close>, from \<open>const requiredBits\<close> on: the second
  extraction, the test for a buffer that ends too early, and the conversion of the message
  bits. It is given \<open>messageLength\<close> and the walk state \<open>w1\<close> that the
  extraction of the header left.
\<close>

definition decode_payload ::
  "byte list \<Rightarrow> nat \<Rightarrow> nat \<Rightarrow> string \<times> nat \<Rightarrow> (error + js_string) \<times> (string \<times> nat)" where
  "decode_payload data bitsPerChannel msgLength w1 =
     (let requiredBits = 32 + msgLength * 8;
          w2 = extract_loop data bitsPerChannel requiredBits w1
      in if length (fst w2) < requiredBits then (Inl Truncated, w2)
         else (Inr (binToString (substring (fst w2) 32 requiredBits)), w2))"

text \<open>
  \<open>decodeLSB\<close> on the image data, returning next to its outcome the walk state
  (\<open>binaryString\<close>, \<open>i\<close>) at the moment it returns or throws. The local
  \<open>messageLength\<close> is written \<open>msgLength\<close> (the record field has the name);
  the test \<open>isNaN(messageLength) || messageLength <= 0 || messageLength > maxPossibleBytes\<close>
  is the \<open>None\<close> case and the condition of the \<open>Some\<close> case.
\<close>

definition decode_run :: "byte list \<Rightarrow> nat \<Rightarrow> (error + js_string) \<times> (string \<times> nat)" where
  "decode_run data bitsPerChannel =
     (if totalAvailableBits data bitsPerChannel < 32 then (Inl TooSmall, ([], 0))
      else
        let w1 = extract_loop data bitsPerChannel 32 ([], 0);
            lengthBits = substring (fst w1) 0 32;
            msgLength = parseInt2 lengthBits;
            maxPossibleBytes = \<lfloor>(totalAvailableBits data bitsPerChannel - 32) / 8\<rfloor>
        in case msgLength of
             None \<Rightarrow> (Inl InvalidHeader, w1)
           | Some n \<Rightarrow>
               if n \<le> 0 \<or> int n > maxPossibleBytes then (Inl InvalidHeader, w1)
               else decode_payload data bitsPerChannel n w1)"

definition decodeLSB :: "canvas \<Rightarrow> nat \<Rightarrow> error + js_string" where
  "decodeLSB cv bitsPerChannel =
     (case cv of
        None \<Rightarrow> Inl NoContext
      | Some data \<Rightarrow> fst (decode_run data bitsPerChannel))"

section \<open>The capacity shown by the application (src/App.tsx)\<close>

text \<open>
  The effect that recomputes \<open>capacity\<close> from the uploaded image's width and height,
  the scale slider (1 to 4 in steps of one half) and \<open>bitsPerChannel\<close>.
\<close>

definition capacityBytes :: "nat \<Rightarrow> nat \<Rightarrow> rat \<Rightarrow> nat \<Rightarrow> int" where
  "capacityBytes width height scale bitsPerChannel =
     (let pixels = (rat_of_nat width * scale) * (rat_of_nat height * scale);
          totalBits = pixels * 3 * rat_of_nat bitsPerChannel;
          bytes = \<lfloor>totalBits / 8\<rfloor> - 4
      in max 0 bytes)"

section \<open>Notions used to state the properties\<close>

text \<open>
  The number of colour bytes (indices that are not an alpha channel) below index \<open>i\<close>:
  the position, counted in embedding slots, at which both walks arrive at \<open>i\<close>.
\<close>

definition rgbBefore :: "nat \<Rightarrow> nat" where
  "rgbBefore i = length (filter (\<lambda>j. (j + 1) mod 4 \<noteq> 0) [0..<i])"

text \<open>The group of \<open>k\<close> bits that the encoder takes at \<open>bitIndex = b\<close>, padded as the loop does.\<close>

definition chunk :: "string \<Rightarrow> nat \<Rightarrow> nat \<Rightarrow> string" where
  "chunk fb k b = padEnd k (substring fb b (b + k))"

text \<open>
  The bits that the decoder's walk has collected when it stands at index \<open>i\<close>, and all
  the bits a buffer can yield (the walk run to the end of the buffer).
\<close>

definition bitsUpTo :: "nat \<Rightarrow> byte list \<Rightarrow> nat \<Rightarrow> string" where
  "bitsUpTo k data i =
     concat (map (\<lambda>j. bits k (data ! j)) (filter (\<lambda>j. (j + 1) mod 4 \<noteq> 0) [0..<i]))"

definition extractable :: "nat \<Rightarrow> byte list \<Rightarrow> string" where
  "extractable k data = bitsUpTo k data (length data)"


section \<open>Strings of binary digits\<close>

text \<open>
  \<open>toString(2)\<close>, \<open>padStart\<close> and \<open>padEnd\<close> with '0' only produce binary
  digits, so every string the codec hands to \<open>parseInt\<close> is a non-empty string of
  binary digits or empty; on these \<open>parseInt2\<close> is the binary value.
\<close>

lemma binValue_snoc: "binValue (xs @ [c]) = 2 * binValue xs + (if c = CHR ''1'' then 1 else 0)"
  by (simp add: binValue_def)

lemma binValue_Nil: "binValue [] = 0"
  by (simp add: binValue_def)

lemma isBinDigit_digit: "isBinDigit (digit d)"
  by (simp add: isBinDigit_def digit_def)

lemma toString2_binary: "list_all isBinDigit (toString2 n)"
proof (induction n rule: toString2.induct)
  case (1 n)
  show ?case
  proof (cases "n < 2")
    case True
    then show ?thesis by (subst toString2.simps) (simp add: isBinDigit_digit)
  next
    case False
    with 1 show ?thesis by (subst toString2.simps) (simp add: isBinDigit_digit)
  qed
qed

lemma toString2_value: "binValue (toString2 n) = n"
proof (induction n rule: toString2.induct)
  case (1 n)
  show ?case
  proof (cases "n < 2")
    case True
    then have "n = 0 \<or> n = 1" by arith
    then show ?thesis
      by (subst toString2.simps) (auto simp: binValue_def digit_def)
  next
    case False
    with 1 have "binValue (toString2 (n div 2)) = n div 2" by simp
    with False show ?thesis
      by (subst toString2.simps) (simp add: binValue_snoc digit_def, presburger)
  qed
qed

lemma toString2_length: "0 < w \<Longrightarrow> n < 2 ^ w \<Longrightarrow> length (toString2 n) \<le> w"
proof (induction n arbitrary: w rule: toString2.induct)
  case (1 n)
  show ?case
  proof (cases "n < 2")
    case True
    then have "toString2 n = [digit n]" by (subst toString2.simps) simp
    with 1(2) show ?thesis by simp
  next
    case False
    obtain v where w: "w = Suc v" using 1(2) by (cases w) auto
    have v: "0 < v"
    proof (cases v)
      case 0
      with w 1(3) False show ?thesis by simp
    next
      case (Suc u)
      then show ?thesis by simp
    qed
    have "2 * (n div 2) \<le> n" by simp
    also have "n < 2 * 2 ^ v" using 1(3) w by simp
    finally have h: "n div 2 < 2 ^ v" by simp
    have ih: "length (toString2 (n div 2)) \<le> v" by (rule 1(1) [OF False v h])
    have "toString2 n = toString2 (n div 2) @ [digit (n mod 2)]"
      using False by (subst toString2.simps) simp
    with ih w show ?thesis by simp
  qed
qed

lemma toString2_nonempty: "toString2 n \<noteq> []"
  by (subst toString2.simps) simp

lemma binValue_bound: "binValue s < 2 ^ length s"
proof (induction s rule: rev_induct)
  case Nil
  show ?case by (simp add: binValue_Nil)
next
  case (snoc c s)
  then show ?case by (simp add: binValue_snoc)
qed

lemma binValue_zeros: "binValue (replicate m (CHR ''0'') @ s) = binValue s"
proof (induction s rule: rev_induct)
  case Nil
  show ?case by (induction m) (simp_all add: binValue_def)
next
  case (snoc c s)
  have "binValue ((replicate m (CHR ''0'') @ s) @ [c]) = binValue (s @ [c])"
    unfolding binValue_snoc using snoc by simp
  then show ?case by simp
qed

lemma binary_inj:
  "length xs = length ys \<Longrightarrow> list_all isBinDigit xs \<Longrightarrow> list_all isBinDigit ys \<Longrightarrow>
   binValue xs = binValue ys \<Longrightarrow> xs = ys"
proof (induction xs arbitrary: ys rule: rev_induct)
  case Nil
  then show ?case by simp
next
  case (snoc c xs)
  from snoc.prems(1) obtain d zs where ys: "ys = zs @ [d]"
    by (cases ys rule: rev_cases) auto
  from snoc.prems ys have eq: "2 * binValue xs + (if c = CHR ''1'' then 1 else 0)
      = 2 * binValue zs + (if d = CHR ''1'' then 1 else 0)"
    by (simp add: binValue_snoc)
  from snoc.prems ys have cd: "isBinDigit c" "isBinDigit d" by simp_all
  from eq have "(c = CHR ''1'') = (d = CHR ''1'')" by (auto split: if_splits) presburger+
  with cd have "c = d" by (auto simp: isBinDigit_def)
  moreover from eq \<open>c = d\<close> have "binValue xs = binValue zs" by (simp split: if_splits)
  with snoc.IH [of zs] snoc.prems ys have "xs = zs" by simp
  ultimately show ?case using ys by simp
qed

lemma parseInt2_binary:
  "s \<noteq> [] \<Longrightarrow> list_all isBinDigit s \<Longrightarrow> parseInt2 s = Some (binValue s)"
proof -
  assume a: "s \<noteq> []" "list_all isBinDigit s"
  then have tw: "takeWhile isBinDigit s = s" by (simp add: list_all_iff)
  show ?thesis unfolding parseInt2_def tw using a(1) by simp
qed

lemma padStart_length: "length (padStart w s) = max w (length s)"
  by (simp add: padStart_def)

lemma zeros_binary: "list_all isBinDigit (replicate m (CHR ''0''))"
  by (induction m) (simp_all add: isBinDigit_def)

lemma padStart_binary: "list_all isBinDigit s \<Longrightarrow> list_all isBinDigit (padStart w s)"
  by (simp add: padStart_def zeros_binary)

lemma padEnd_binary: "list_all isBinDigit s \<Longrightarrow> list_all isBinDigit (padEnd w s)"
  by (simp add: padEnd_def zeros_binary)

lemma padStart_value: "binValue (padStart w s) = binValue s"
  by (simp add: padStart_def binValue_zeros)

lemma padStart_toString2_length:
  "0 < w \<Longrightarrow> n < 2 ^ w \<Longrightarrow> length (padStart w (toString2 n)) = w"
  using toString2_length [of w n] by (simp add: padStart_length)

lemma padStart_toString2_inverse:
  assumes "list_all isBinDigit c" and "c \<noteq> []"
  shows "padStart (length c) (toString2 (binValue c)) = c"
proof (rule binary_inj)
  from assms(2) have "0 < length c" by simp
  then show "length (padStart (length c) (toString2 (binValue c))) = length c"
    by (rule padStart_toString2_length) (rule binValue_bound)
  show "list_all isBinDigit (padStart (length c) (toString2 (binValue c)))"
    by (rule padStart_binary) (rule toString2_binary)
  show "list_all isBinDigit c" by (rule assms)
  show "binValue (padStart (length c) (toString2 (binValue c))) = binValue c"
    by (simp add: padStart_value toString2_value)
qed

section \<open>Hiding bits in a byte and reading them back\<close>

text \<open>
  For \<open>k \<le> 8\<close> and a value below \<open>2^k\<close> the assignment
  \<open>data[i] = (data[i] & mask) | valueToHide\<close> stays within 0..255 (the clamp does
  nothing), sets the low \<open>k\<close> bits to the value and keeps the others.
\<close>

lemma nat_bit_small:
  assumes "v < 2 ^ k" and "k \<le> n"
  shows "\<not> bit (v::nat) n"
proof -
  have "(2::nat) ^ k \<le> 2 ^ n" by (rule power_increasing) (use assms in simp_all)
  with assms(1) have "v < 2 ^ n" by (rule less_le_trans)
  then have "v div 2 ^ n = 0" by simp
  then show ?thesis by (simp add: bit_iff_odd)
qed

lemma shl32_small: "k < 32 \<Longrightarrow> shl32 x k = push_bit k x"
  by (simp add: shl32_def)

lemma bit_255_int: "bit (255 :: int) m = (m < 8)"
proof -
  have m: "(mask 8 :: int) = 255" by (simp add: mask_eq_exp_minus_1)
  have "bit (mask 8 :: int) m = (m < 8)" unfolding bit_mask_iff by auto
  then show ?thesis by (simp only: m)
qed

lemma bit_255_nat: "bit (255 :: nat) m = (m < 8)"
proof -
  have m: "(mask 8 :: nat) = 255" by (simp add: mask_eq_exp_minus_1)
  have "bit (mask 8 :: nat) m = (m < 8)" unfolding bit_mask_iff by auto
  then show ?thesis by (simp only: m)
qed

lemma hide_pre_bit:
  assumes "k \<le> 8" "v < 2 ^ k"
  shows "bit ((ucast (d::byte) AND mask_lsb k) OR toInt32 (Some v)) n
     = (n < 8 \<and> (if n < k then bit v n else bit d n))"
  using assms nat_bit_small[of v k n] bit_imp_le_length[of d n]
  by (auto simp: mask_lsb_def shl32_small toInt32_def bit_simps bit_255_int bit_255_nat)

lemma toUint8Clamp_small:
  assumes "\<And>n. bit x n \<Longrightarrow> n < 8"
  shows "toUint8Clamp x = ucast x"
proof -
  have "take_bit 8 x = x"
    by (rule bit_eqI) (use assms in \<open>auto simp: bit_simps\<close>)
  then have "uint x = take_bit 8 (uint x)"
    by (metis unsigned_take_bit_eq)
  then have u: "uint x < 2 ^ 8"
    by (metis take_bit_int_less_exp)
  have "sint x = signed_take_bit 31 (uint x)" by (simp add: sint_uint)
  also have "\<dots> = uint x"
  proof (rule signed_take_bit_int_eq_self)
    have "- (2 ^ 31) \<le> (0::int)" by simp
    also have "0 \<le> uint x" by simp
    finally show "- (2 ^ 31) \<le> uint x" .
    show "uint x < 2 ^ 31" using u by simp
  qed
  finally have "sint x = uint x" .
  with u show ?thesis
    by (simp add: toUint8Clamp_def)
qed

lemma hide_bit:
  assumes "k \<le> 8" "v < 2 ^ k"
  shows "bit (hide k d (Some v)) n = (if n < k then bit v n else bit d n)"
proof -
  let ?x = "(ucast d AND mask_lsb k) OR toInt32 (Some v)"
  have "toUint8Clamp ?x = ucast ?x"
    by (rule toUint8Clamp_small) (simp add: hide_pre_bit [OF assms])
  then show ?thesis
    using bit_imp_le_length[of d n] nat_bit_small[OF assms(2), of n] assms(1)
    by (auto simp: hide_def bit_ucast_iff hide_pre_bit [OF assms])
qed

lemma bitMask_eq: "k < 32 \<Longrightarrow> bitMask k = mask k"
  by (simp add: bitMask_def shl32_small mask_eq_exp_minus_1)

lemma read_hide:
  assumes "k \<le> 8" "v < 2 ^ k"
  shows "unat (ucast (hide k d (Some v)) AND bitMask k) = v"
proof -
  have "ucast (hide k d (Some v)) AND bitMask k = (of_nat v :: 32 word)"
    using assms(1) nat_bit_small[OF assms(2)]
    by (intro bit_eqI) (auto simp: bitMask_eq bit_simps hide_bit [OF assms])
  moreover have "v < 2 ^ 32"
  proof -
    have "(2::nat) ^ k \<le> 2 ^ 32" by (rule power_increasing) (use assms in simp_all)
    with assms(2) show ?thesis by (rule less_le_trans)
  qed
  ultimately show ?thesis by (simp add: unat_of_nat)
qed

lemma hide_upper:
  assumes "k \<le> 8" "v < 2 ^ k"
  shows "hide k d (Some v) AND NOT (mask k) = d AND NOT (mask k)"
  by (rule bit_eqI) (auto simp: bit_simps hide_bit [OF assms])

section \<open>The encoding loop, byte by byte\<close>

lemma rgbBefore_0: "rgbBefore 0 = 0"
  by (simp add: rgbBefore_def)

lemma rgbBefore_Suc:
  "rgbBefore (Suc i) = (if (i + 1) mod 4 = 0 then rgbBefore i else Suc (rgbBefore i))"
  by (simp add: rgbBefore_def)

lemma rgbBefore_mono: "i \<le> n \<Longrightarrow> rgbBefore i \<le> rgbBefore n"
proof (induction n)
  case 0
  then show ?case by simp
next
  case (Suc n)
  show ?case
  proof (cases "i = Suc n")
    case True
    then show ?thesis by simp
  next
    case False
    with Suc.prems have "i \<le> n" by simp
    then have "rgbBefore i \<le> rgbBefore n" by (rule Suc.IH)
    then show ?thesis by (simp add: rgbBefore_Suc)
  qed
qed

lemma rgbBefore_pixels: "rgbBefore (4 * p) = 3 * p"
proof (induction p)
  case 0
  show ?case by (simp add: rgbBefore_0)
next
  case (Suc p)
  have m1: "(4 * p + 1) mod 4 \<noteq> 0" by presburger
  have m2: "(Suc (4 * p) + 1) mod 4 \<noteq> 0" by presburger
  have m3: "(Suc (Suc (4 * p)) + 1) mod 4 \<noteq> 0" by presburger
  have m4: "(Suc (Suc (Suc (4 * p))) + 1) mod 4 = 0" by presburger
  have a1: "rgbBefore (Suc (4 * p)) = Suc (rgbBefore (4 * p))"
    by (simp only: rgbBefore_Suc m1 if_False)
  have a2: "rgbBefore (Suc (Suc (4 * p))) = Suc (rgbBefore (Suc (4 * p)))"
    by (simp only: rgbBefore_Suc [of "Suc (4 * p)"] m2 if_False)
  have a3: "rgbBefore (Suc (Suc (Suc (4 * p)))) = Suc (rgbBefore (Suc (Suc (4 * p))))"
    by (simp only: rgbBefore_Suc [of "Suc (Suc (4 * p))"] m3 if_False)
  have a4: "rgbBefore (Suc (Suc (Suc (Suc (4 * p))))) = rgbBefore (Suc (Suc (Suc (4 * p))))"
    by (simp add: rgbBefore_Suc [of "Suc (Suc (Suc (4 * p)))"] m4)
  have e: "4 * Suc p = Suc (Suc (Suc (Suc (4 * p))))" by simp
  show ?case unfolding e a4 a3 a2 a1 Suc by simp
qed

lemma encode_loop_length: "length (encode_loop fb k i b data) = length data"
proof (induction fb k i b data rule: encode_loop.induct)
  case (1 fb k i b data)
  show ?case
  proof (cases "i < length data \<and> b < length fb")
    case False
    then show ?thesis by (subst encode_loop.simps) auto
  next
    case True
    show ?thesis
    proof (cases "(i + 1) mod 4 = 0")
      case True
      with \<open>i < length data \<and> b < length fb\<close> 1(1) show ?thesis
        by (subst encode_loop.simps) simp
    next
      case False
      with \<open>i < length data \<and> b < length fb\<close> 1(2) show ?thesis
        by (subst encode_loop.simps) (simp add: Let_def)
    qed
  qed
qed

lemma encode_loop_nth:
  "n < length data \<Longrightarrow>
   encode_loop fb k i b data ! n =
     (if i \<le> n \<and> (n + 1) mod 4 \<noteq> 0 \<and> b + k * (rgbBefore n - rgbBefore i) < length fb
      then hide k (data ! n) (parseInt2 (chunk fb k (b + k * (rgbBefore n - rgbBefore i))))
      else data ! n)"
proof (induction fb k i b data rule: encode_loop.induct)
  case (1 fb k i b data)
  show ?case
  proof (cases "i < length data \<and> b < length fb")
    case False
    then have e: "encode_loop fb k i b data = data" by (subst encode_loop.simps) auto
    from False 1(3) show ?thesis unfolding e by auto
  next
    case run: True
    show ?thesis
    proof (cases "(i + 1) mod 4 = 0")
      case True
      with run have e: "encode_loop fb k i b data = encode_loop fb k (i + 1) b data"
        by (subst encode_loop.simps) simp
      have r: "rgbBefore (i + 1) = rgbBefore i" using True by (simp add: rgbBefore_Suc)
      have ih: "encode_loop fb k (i + 1) b data ! n =
         (if i + 1 \<le> n \<and> (n + 1) mod 4 \<noteq> 0 \<and> b + k * (rgbBefore n - rgbBefore i) < length fb
          then hide k (data ! n) (parseInt2 (chunk fb k (b + k * (rgbBefore n - rgbBefore i))))
          else data ! n)"
        using 1(1) [OF run True 1(3)] unfolding r .
      show ?thesis
      proof (cases "n = i")
        case True
        with \<open>(i + 1) mod 4 = 0\<close> show ?thesis unfolding e ih by simp
      next
        case False
        then have "(i + 1 \<le> n) = (i \<le> n)" by auto
        then show ?thesis unfolding e ih by simp
      qed
    next
      case False
      define v where "v = parseInt2 (chunk fb k b)"
      define data' where "data' = data[i := hide k (data ! i) v]"
      from run False have e: "encode_loop fb k i b data = encode_loop fb k (i + 1) (b + k) data'"
        by (subst encode_loop.simps) (simp add: Let_def v_def data'_def chunk_def)
      have r: "rgbBefore (i + 1) = Suc (rgbBefore i)" using False by (simp add: rgbBefore_Suc)
      have n': "n < length data'" using 1(3) by (simp add: data'_def)
      have ih: "encode_loop fb k (i + 1) (b + k) data' ! n =
         (if i + 1 \<le> n \<and> (n + 1) mod 4 \<noteq> 0 \<and> b + k + k * (rgbBefore n - Suc (rgbBefore i)) < length fb
          then hide k (data' ! n) (parseInt2 (chunk fb k (b + k + k * (rgbBefore n - Suc (rgbBefore i)))))
          else data' ! n)"
        using 1(2) [OF run False refl refl] n' unfolding r
        by (simp add: data'_def v_def chunk_def)
      show ?thesis
      proof (cases "i + 1 \<le> n")
        case True
        then have "rgbBefore (i + 1) \<le> rgbBefore n" by (rule rgbBefore_mono)
        then obtain m where m: "rgbBefore n = Suc (rgbBefore i) + m"
          unfolding r by (auto simp: le_iff_add)
        have eq: "b + k + k * (rgbBefore n - Suc (rgbBefore i)) = b + k * (rgbBefore n - rgbBefore i)"
          unfolding m by simp
        from True have "data' ! n = data ! n" by (simp add: data'_def)
        then show ?thesis unfolding e ih eq using True by simp
      next
        case nle: False
        show ?thesis
        proof (cases "n = i")
          case True
          with run False show ?thesis unfolding e ih
            by (simp add: data'_def v_def)
        next
          case False
          with nle have "n < i" by simp
          then show ?thesis unfolding e ih by (simp add: data'_def)
        qed
      qed
    qed
  qed
qed

section \<open>The extraction walk\<close>

text \<open>
  Started on the bits of the first \<open>i\<close> bytes, the extraction loop stops on the bits
  of the first \<open>i'\<close> bytes for some \<open>i' \<ge> i\<close>, with the target length
  reached or the buffer exhausted. For \<open>0 < k < 32\<close> every colour byte contributes
  exactly \<open>k\<close> binary digits.
\<close>

lemma bitsUpTo_0: "bitsUpTo k data 0 = []"
  by (simp add: bitsUpTo_def)

lemma bitsUpTo_Suc:
  "bitsUpTo k data (Suc i) =
     (if (i + 1) mod 4 \<noteq> 0 then bitsUpTo k data i @ bits k (data ! i) else bitsUpTo k data i)"
  by (simp add: bitsUpTo_def)

lemma bitsUpTo_prefix: "i \<le> j \<Longrightarrow> \<exists>r. bitsUpTo k data j = bitsUpTo k data i @ r"
proof (induction j)
  case 0
  then show ?case by simp
next
  case (Suc j)
  show ?case
  proof (cases "i = Suc j")
    case True
    then show ?thesis by simp
  next
    case False
    with Suc.prems have "i \<le> j" by simp
    then obtain r where "bitsUpTo k data j = bitsUpTo k data i @ r" using Suc.IH by blast
    then show ?thesis by (simp add: bitsUpTo_Suc)
  qed
qed

lemma bitsUpTo_take:
  assumes "i \<le> j" and "t \<le> length (bitsUpTo k data i)"
  shows "take t (bitsUpTo k data i) = take t (bitsUpTo k data j)"
proof -
  from bitsUpTo_prefix [OF assms(1)] obtain r
    where "bitsUpTo k data j = bitsUpTo k data i @ r" by blast
  with assms(2) show ?thesis by simp
qed

lemma bits_length:
  assumes "0 < k" and "k < 32"
  shows "length (bits k b) = k"
proof -
  have "unat (take_bit k (ucast b :: 32 word)) = take_bit k (unat (ucast b :: 32 word))"
    by (rule unsigned_take_bit_eq)
  also have "\<dots> < 2 ^ k" by (rule take_bit_nat_less_exp)
  finally have "unat (ucast b AND mask k :: 32 word) < 2 ^ k"
    by (simp only: take_bit_eq_mask)
  then show ?thesis
    unfolding bits_def bitMask_eq [OF assms(2)]
    by (rule padStart_toString2_length [OF assms(1)])
qed

lemma bits_binary: "list_all isBinDigit (bits k b)"
  unfolding bits_def by (rule padStart_binary) (rule toString2_binary)

lemma bitsUpTo_length:
  assumes "0 < k" and "k < 32"
  shows "length (bitsUpTo k data i) = k * rgbBefore i"
  by (induction i) (simp_all add: bitsUpTo_0 rgbBefore_0 bitsUpTo_Suc rgbBefore_Suc bits_length [OF assms])

lemma bitsUpTo_binary: "list_all isBinDigit (bitsUpTo k data i)"
  by (induction i) (simp_all add: bitsUpTo_0 bitsUpTo_Suc bits_binary)

lemma extract_loop_walk:
  "i \<le> length data \<Longrightarrow>
   \<exists>i'. extract_loop data k t (bitsUpTo k data i, i) = (bitsUpTo k data i', i') \<and>
        i \<le> i' \<and> i' \<le> length data \<and>
        (t \<le> length (bitsUpTo k data i') \<or> i' = length data)"
proof (induction "length data - i" arbitrary: i)
  case 0
  then have "i = length data" by simp
  then have "extract_loop data k t (bitsUpTo k data i, i) = (bitsUpTo k data i, i)"
    by (subst extract_loop.simps) simp
  with \<open>i = length data\<close> show ?case by auto
next
  case (Suc d)
  then have lt: "i < length data" by simp
  show ?case
  proof (cases "length (bitsUpTo k data i) < t")
    case False
    then have "extract_loop data k t (bitsUpTo k data i, i) = (bitsUpTo k data i, i)"
      by (subst extract_loop.simps) simp
    with False Suc.prems show ?thesis by auto
  next
    case True
    with lt have e: "extract_loop data k t (bitsUpTo k data i, i)
        = extract_loop data k t (bitsUpTo k data (Suc i), Suc i)"
      by (subst extract_loop.simps) (simp add: bitsUpTo_Suc)
    from Suc(2) lt have "d = length data - Suc i" "Suc i \<le> length data" by simp_all
    from Suc(1) [OF this] obtain i' where
      "extract_loop data k t (bitsUpTo k data (Suc i), Suc i) = (bitsUpTo k data i', i')"
      "Suc i \<le> i'" "i' \<le> length data"
      "t \<le> length (bitsUpTo k data i') \<or> i' = length data" by blast
    then show ?thesis unfolding e by (intro exI [of _ i']) auto
  qed
qed

lemma extract_loop_enough:
  assumes "i \<le> length data" and "t \<le> length (extractable k data)"
  shows "t \<le> length (fst (extract_loop data k t (bitsUpTo k data i, i))) \<and>
         take t (fst (extract_loop data k t (bitsUpTo k data i, i))) = take t (extractable k data) \<and>
         (\<exists>i'. i \<le> i' \<and> i' \<le> length data \<and>
            extract_loop data k t (bitsUpTo k data i, i) = (bitsUpTo k data i', i'))"
proof -
  from extract_loop_walk [OF assms(1), of k t] obtain i' where
    w: "extract_loop data k t (bitsUpTo k data i, i) = (bitsUpTo k data i', i')"
      "i \<le> i'" "i' \<le> length data"
      "t \<le> length (bitsUpTo k data i') \<or> i' = length data" by blast
  from w(4) assms(2) have len: "t \<le> length (bitsUpTo k data i')"
    by (auto simp: extractable_def)
  from bitsUpTo_take [OF w(3) len] have "take t (bitsUpTo k data i') = take t (extractable k data)"
    by (simp add: extractable_def)
  with len w show ?thesis by auto
qed

lemma extract_loop_short:
  assumes "i \<le> length data" and "length (extractable k data) < t"
  shows "extract_loop data k t (bitsUpTo k data i, i) = (extractable k data, length data)"
proof -
  from extract_loop_walk [OF assms(1), of k t] obtain i' where
    w: "extract_loop data k t (bitsUpTo k data i, i) = (bitsUpTo k data i', i')"
      "i \<le> i'" "i' \<le> length data"
      "t \<le> length (bitsUpTo k data i') \<or> i' = length data" by blast
  from bitsUpTo_prefix [OF w(3), of k data]
  have "length (bitsUpTo k data i') \<le> length (extractable k data)"
    by (auto simp: extractable_def)
  with assms(2) w(4) have "i' = length data" by auto
  with w(1) show ?thesis by (simp add: extractable_def)
qed

section \<open>The bits of an encoded buffer\<close>

text \<open>
  Reading back a byte that the encoder wrote gives the group of bits it was given; hence
  the bits of an encoded buffer start with the frame, cut at the number of bits the
  colour bytes can hold.
\<close>

lemma substring_from: "substring s b (b + k) = take k (drop b s)"
  by (simp add: substring_def min_def max_def drop_take)

lemma chunk_eq:
  "b \<le> length fb \<Longrightarrow> chunk fb k b = take k (drop b (fb @ replicate k (CHR ''0'')))"
  by (simp add: chunk_def padEnd_def substring_from min_def)

lemma chunk_length: "length (chunk fb k b) = k"
  by (simp add: chunk_def padEnd_def substring_from)

lemma list_all_take: "list_all P xs \<Longrightarrow> list_all P (take n xs)"
  by (auto simp: list_all_iff dest: in_set_takeD)

lemma list_all_drop: "list_all P xs \<Longrightarrow> list_all P (drop n xs)"
  by (auto simp: list_all_iff dest: in_set_dropD)

lemma chunk_binary: "list_all isBinDigit fb \<Longrightarrow> list_all isBinDigit (chunk fb k b)"
  unfolding chunk_def substring_from
  by (intro padEnd_binary list_all_take list_all_drop)

lemma bits_hide_chunk:
  assumes "list_all isBinDigit fb" and "0 < k" and "k \<le> 8"
  shows "bits k (hide k d (parseInt2 (chunk fb k b))) = chunk fb k b"
proof -
  let ?c = "chunk fb k b"
  have c: "list_all isBinDigit ?c" "?c \<noteq> []" "length ?c = k"
    using assms chunk_length [of fb k b] by (auto intro: chunk_binary)
  then have p: "parseInt2 ?c = Some (binValue ?c)" by (simp add: parseInt2_binary)
  have v: "binValue ?c < 2 ^ k" using binValue_bound [of ?c] c(3) by simp
  have "unat (ucast (hide k d (Some (binValue ?c))) AND bitMask k) = binValue ?c"
    by (rule read_hide [OF assms(3) v])
  then have "bits k (hide k d (parseInt2 ?c)) = padStart (length ?c) (toString2 (binValue ?c))"
    by (simp add: bits_def p c(3))
  also have "\<dots> = ?c" by (rule padStart_toString2_inverse [OF c(1) c(2)])
  finally show ?thesis .
qed

lemma encoded_bits:
  assumes bin: "list_all isBinDigit fb" and k: "0 < k" "k \<le> 8"
  shows "i \<le> length data \<Longrightarrow>
    take (length fb) (bitsUpTo k (encode_loop fb k 0 0 data) i) = take (k * rgbBefore i) fb"
proof (induction i)
  case 0
  show ?case by (simp add: bitsUpTo_0 rgbBefore_0)
next
  case (Suc i)
  let ?E = "encode_loop fb k 0 0 data"
  let ?A = "bitsUpTo k ?E i"
  let ?r = "rgbBefore i"
  from k have k32: "k < 32" by simp
  from Suc.prems have i: "i < length data" by simp
  then have ih: "take (length fb) ?A = take (k * ?r) fb" using Suc.IH by simp
  have lenA: "length ?A = k * ?r" by (rule bitsUpTo_length [OF k(1) k32])
  show ?case
  proof (cases "(i + 1) mod 4 = 0")
    case True
    then show ?thesis using ih by (simp add: bitsUpTo_Suc rgbBefore_Suc)
  next
    case False
    then have step: "bitsUpTo k ?E (Suc i) = ?A @ bits k (?E ! i)" "rgbBefore (Suc i) = Suc ?r"
      by (simp_all add: bitsUpTo_Suc rgbBefore_Suc)
    show ?thesis
    proof (cases "k * ?r < length fb")
      case True
      with False i have "?E ! i = hide k (data ! i) (parseInt2 (chunk fb k (k * ?r)))"
        by (simp add: encode_loop_nth rgbBefore_0)
      then have b: "bits k (?E ! i) = chunk fb k (k * ?r)"
        by (simp add: bits_hide_chunk [OF bin k])
      from True lenA ih have A: "?A = take (k * ?r) fb" by simp
      from True have c: "chunk fb k (k * ?r) = take k (drop (k * ?r) (fb @ replicate k (CHR ''0'')))"
        by (simp add: chunk_eq)
      have "?A @ bits k (?E ! i) = take (k * ?r + k) (fb @ replicate k (CHR ''0''))"
        unfolding b c take_add using True A by simp
      then have "take (length fb) (?A @ bits k (?E ! i))
          = take (length fb) (take (k * ?r + k) (fb @ replicate k (CHR ''0'')))"
        by (simp only:)
      also have "\<dots> = take (k * ?r + k) (take (length fb) (fb @ replicate k (CHR ''0'')))"
        by (simp only: take_take min.commute)
      also have "\<dots> = take (k * Suc ?r) fb"
        by (simp add: add.commute)
      finally show ?thesis unfolding step .
    next
      case False
      then have "take (length fb) (?A @ bits k (?E ! i)) = take (length fb) ?A"
        using lenA by simp
      with False ih show ?thesis unfolding step by simp
    qed
  qed
qed

lemma encoded_extractable:
  assumes "list_all isBinDigit fb" and "0 < k" "k \<le> 8"
  shows "take (length fb) (extractable k (encode_loop fb k 0 0 data))
     = take (k * rgbBefore (length data)) fb"
  using encoded_bits [OF assms, of "length data" data]
  by (simp add: extractable_def encode_loop_length)

section \<open>Text to bits and back\<close>

lemma chunks8_Nil: "chunks8 [] = []"
  by (subst chunks8.simps) simp

lemma chunks8_append:
  "length x = 8 \<Longrightarrow> chunks8 (x @ rest) = x # chunks8 rest"
  by (subst chunks8.simps) auto

lemma chunks8_length: "length s = 8 * n \<Longrightarrow> length (chunks8 s) = n"
proof (induction n arbitrary: s)
  case 0
  then show ?case by (simp add: chunks8_Nil)
next
  case (Suc n)
  then have s: "s = take 8 s @ drop 8 s" "length (take 8 s) = 8" "length (drop 8 s) = 8 * n"
    by simp_all
  from chunks8_append [OF s(2), of "drop 8 s"] Suc.IH [OF s(3)] show ?case
    by simp
qed

lemma binToString_length: "length s = 8 * n \<Longrightarrow> length (binToString s) = n"
  by (simp add: binToString_def chunks8_length)

lemma chunks8_nth:
  "length s = 8 * n \<Longrightarrow> j < n \<Longrightarrow> chunks8 s ! j = take 8 (drop (8 * j) s)"
proof (induction n arbitrary: s j)
  case 0
  then show ?case by simp
next
  case (Suc n)
  then have s: "s = take 8 s @ drop 8 s" "length (take 8 s) = 8" "length (drop 8 s) = 8 * n"
    by simp_all
  have c: "chunks8 s = take 8 s # chunks8 (drop 8 s)"
    using chunks8_append [OF s(2), of "drop 8 s"] by simp
  show ?case
  proof (cases j)
    case 0
    then show ?thesis by (simp add: c)
  next
    case (Suc j')
    with Suc.prems have "j' < n" by simp
    from Suc.IH [OF s(3) this] have "chunks8 (drop 8 s) ! j' = take 8 (drop (8 * j' + 8) s)"
      by (simp add: add.commute)
    with Suc show ?thesis by (simp add: c add.commute)
  qed
qed

lemma binToString_nth:
  assumes len: "length s = 8 * n" and bin: "list_all isBinDigit s" and j: "j < n"
  shows "binToString s ! j = of_nat (binValue (take 8 (drop (8 * j) s)))"
proof -
  let ?g = "take 8 (drop (8 * j) s)"
  have "8 * j + 8 \<le> length s" using len j by simp
  then have "length ?g = 8" by simp
  then have ne: "?g \<noteq> []" by auto
  have "list_all isBinDigit ?g"
    using bin by (auto simp: list_all_iff dest: in_set_takeD in_set_dropD)
  then have "parseInt2 ?g = Some (binValue ?g)" using ne by (simp add: parseInt2_binary)
  moreover have "j < length (chunks8 s)" using j by (simp add: chunks8_length [OF len])
  ultimately show ?thesis
    by (simp add: binToString_def chunks8_nth [OF len j] fromCharCode_def)
qed

lemma charBits_length: "unat c < 256 \<Longrightarrow> length (padStart 8 (toString2 (unat (c :: 16 word)))) = 8"
  by (rule padStart_toString2_length) simp_all

lemma charBits_parse:
  "fromCharCode (parseInt2 (padStart 8 (toString2 (unat (c :: 16 word))))) = c"
proof -
  let ?s = "padStart 8 (toString2 (unat c))"
  have "list_all isBinDigit ?s" by (intro padStart_binary toString2_binary)
  moreover have "?s \<noteq> []" using toString2_nonempty [of "unat c"] by (simp add: padStart_def)
  ultimately have "parseInt2 ?s = Some (unat c)"
    by (simp add: parseInt2_binary padStart_value toString2_value)
  then show ?thesis by (simp add: fromCharCode_def)
qed

lemma binToString_stringToBin:
  "list_all (\<lambda>c. unat c < 256) str \<Longrightarrow> binToString (stringToBin str) = str"
proof (induction str)
  case Nil
  show ?case by (simp add: binToString_def stringToBin_def chunks8_Nil)
next
  case (Cons c str)
  then have "unat c < 256" and ih: "binToString (stringToBin str) = str" by simp_all
  from charBits_length [OF this(1)] have
    "chunks8 (padStart 8 (toString2 (unat c)) @ stringToBin str)
      = padStart 8 (toString2 (unat c)) # chunks8 (stringToBin str)"
    by (rule chunks8_append)
  then show ?case using ih
    by (simp add: binToString_def stringToBin_def charBits_parse)
qed

lemma stringToBin_length:
  "list_all (\<lambda>c. unat c < 256) str \<Longrightarrow> length (stringToBin str) = 8 * length str"
  by (induction str) (simp_all add: stringToBin_def charBits_length)

lemma stringToBin_length_ge: "8 * length str \<le> length (stringToBin str)"
  by (induction str) (simp_all add: stringToBin_def padStart_length)

lemma stringToBin_binary: "list_all isBinDigit (stringToBin str)"
  by (induction str) (simp_all add: stringToBin_def padStart_binary toString2_binary)

lemma lengthHeader_binary: "list_all isBinDigit (lengthHeader message)"
  unfolding lengthHeader_def by (intro padStart_binary toString2_binary)

lemma lengthHeader_length:
  "length message < 2 ^ 32 \<Longrightarrow> length (lengthHeader message) = 32"
  unfolding lengthHeader_def by (rule padStart_toString2_length) simp_all

lemma lengthHeader_length_ge: "32 \<le> length (lengthHeader message)"
  by (simp add: lengthHeader_def padStart_length)

lemma lengthHeader_parse: "parseInt2 (lengthHeader message) = Some (length message)"
proof -
  have "lengthHeader message \<noteq> []" using lengthHeader_length_ge [of message] by auto
  then show ?thesis
    by (simp add: parseInt2_binary lengthHeader_binary)
       (simp add: lengthHeader_def padStart_value toString2_value)
qed

lemma fullBinary_binary: "list_all isBinDigit (fullBinary message)"
  by (simp add: fullBinary_def lengthHeader_binary stringToBin_binary)

lemma fullBinary_length_ge: "32 + 8 * length message \<le> length (fullBinary message)"
  using lengthHeader_length_ge [of message] stringToBin_length_ge [of message]
  by (simp add: fullBinary_def)

lemma fullBinary_length:
  "length message < 2 ^ 32 \<Longrightarrow> list_all (\<lambda>c. unat c < 256) message \<Longrightarrow>
   length (fullBinary message) = 32 + 8 * length message"
  by (simp add: fullBinary_def lengthHeader_length stringToBin_length)

section \<open>Decoding, phase by phase\<close>

lemma totalAvailableBits_pixels:
  "length data = 4 * pixels \<Longrightarrow> totalAvailableBits data k = rat_of_nat (pixels * 3 * k)"
  by (simp add: totalAvailableBits_def)

lemma maxPossibleBytes_pixels:
  "\<lfloor>(rat_of_nat n - 32) / 8\<rfloor> = (int n - 32) div 8"
proof -
  have "(rat_of_nat n - 32) / 8 = rat_of_int (int n - 32) / rat_of_int 8" by simp
  then show ?thesis by (simp only: floor_divide_of_int_eq)
qed

lemma extractable_length:
  "0 < k \<Longrightarrow> k < 32 \<Longrightarrow> length data = 4 * pixels \<Longrightarrow>
   length (extractable k data) = pixels * 3 * k"
  by (simp add: extractable_def bitsUpTo_length rgbBefore_pixels)

lemma substring_0: "substring s 0 n = take n s"
  by (simp add: substring_def)

lemma substring_32: "32 \<le> n \<Longrightarrow> substring s 32 n = drop 32 (take n s)"
  by (simp add: substring_def min_def max_def)

lemma decode_run_TooSmall:
  "length data = 4 * pixels \<Longrightarrow> pixels * 3 * k < 32 \<Longrightarrow>
   decode_run data k = (Inl TooSmall, ([], 0))"
proof -
  assume a: "length data = 4 * pixels" "pixels * 3 * k < 32"
  have "rat_of_nat (pixels * 3 * k) < rat_of_nat 32" using a(2) by (simp only: of_nat_less_iff)
  then have "totalAvailableBits data k < 32"
    by (simp add: totalAvailableBits_pixels [OF a(1)])
  then show ?thesis by (simp add: decode_run_def)
qed

lemma decode_run_unfold:
  assumes wf: "length data = 4 * pixels" and k: "0 < k" "k < 32"
    and big: "32 \<le> pixels * 3 * k"
  shows "decode_run data k =
    (case parseInt2 (take 32 (extractable k data)) of
       None \<Rightarrow> (Inl InvalidHeader, extract_loop data k 32 ([], 0))
     | Some n \<Rightarrow>
         if n = 0 \<or> (int (pixels * 3 * k) - 32) div 8 < int n
         then (Inl InvalidHeader, extract_loop data k 32 ([], 0))
         else if length (extractable k data) < 32 + n * 8
         then (Inl Truncated, (extractable k data, length data))
         else (Inr (binToString (substring (extractable k data) 32 (32 + n * 8))),
               extract_loop data k (32 + n * 8) (extract_loop data k 32 ([], 0))))"
proof -
  let ?B = "extractable k data"
  let ?w1 = "extract_loop data k 32 ([], 0)"
  have len: "length ?B = pixels * 3 * k" by (rule extractable_length [OF k wf])
  have "\<not> rat_of_nat (pixels * 3 * k) < rat_of_nat 32" using big by (simp only: of_nat_less_iff not_less)
  then have nts: "\<not> totalAvailableBits data k < 32"
    by (simp add: totalAvailableBits_pixels [OF wf])
  have mx: "\<lfloor>(totalAvailableBits data k - 32) / 8\<rfloor> = (int (pixels * 3 * k) - 32) div 8"
    unfolding totalAvailableBits_pixels [OF wf] by (rule maxPossibleBytes_pixels)
  from extract_loop_enough [of 0 data 32 k] big len obtain i1 where
    p1: "take 32 (fst ?w1) = take 32 ?B" "i1 \<le> length data" "?w1 = (bitsUpTo k data i1, i1)"
    by (auto simp: bitsUpTo_0)
  have hdr: "substring (fst ?w1) 0 32 = take 32 ?B" by (simp add: substring_0 p1(1))
  have p2: "(if length (fst (extract_loop data k (32 + n * 8) ?w1)) < 32 + n * 8
             then (Inl Truncated, extract_loop data k (32 + n * 8) ?w1)
             else (Inr (binToString (substring (fst (extract_loop data k (32 + n * 8) ?w1)) 32 (32 + n * 8))),
                   extract_loop data k (32 + n * 8) ?w1))
          = (if length ?B < 32 + n * 8
             then (Inl Truncated, (?B, length data))
             else (Inr (binToString (substring ?B 32 (32 + n * 8))),
                   extract_loop data k (32 + n * 8) ?w1))" for n
  proof (cases "length ?B < 32 + n * 8")
    case True
    from extract_loop_short [OF p1(2) True]
    have "extract_loop data k (32 + n * 8) ?w1 = (?B, length data)" by (simp add: p1(3))
    with True show ?thesis by simp
  next
    case False
    then have "32 + n * 8 \<le> length ?B" by simp
    from extract_loop_enough [OF p1(2) this]
    have "32 + n * 8 \<le> length (fst (extract_loop data k (32 + n * 8) ?w1))"
      "take (32 + n * 8) (fst (extract_loop data k (32 + n * 8) ?w1)) = take (32 + n * 8) ?B"
      by (simp_all add: p1(3))
    with False show ?thesis by (simp add: substring_32)
  qed
  show ?thesis
    unfolding decode_run_def decode_payload_def Let_def hdr mx
    by (simp add: nts p2 split: option.split)
qed

lemma phase1_state:
  "\<exists>i1. i1 \<le> length data \<and> extract_loop data k 32 ([], 0) = (bitsUpTo k data i1, i1)"
  using extract_loop_walk [of 0 data k 32] by (auto simp: bitsUpTo_0)

lemma decode_payload_walk:
  assumes "i1 \<le> length data"
  shows "decode_payload data k n (bitsUpTo k data i1, i1) =
    (if length (extractable k data) < 32 + n * 8
     then (Inl Truncated, (extractable k data, length data))
     else (Inr (binToString (substring (extractable k data) 32 (32 + n * 8))),
           extract_loop data k (32 + n * 8) (bitsUpTo k data i1, i1)))"
proof (cases "length (extractable k data) < 32 + n * 8")
  case True
  from extract_loop_short [OF assms True] True show ?thesis
    by (simp add: decode_payload_def)
next
  case False
  then have "32 + n * 8 \<le> length (extractable k data)" by simp
  from extract_loop_enough [OF assms this]
  have "32 + n * 8 \<le> length (fst (extract_loop data k (32 + n * 8) (bitsUpTo k data i1, i1)))"
    "take (32 + n * 8) (fst (extract_loop data k (32 + n * 8) (bitsUpTo k data i1, i1)))
       = take (32 + n * 8) (extractable k data)"
    by simp_all
  with False show ?thesis by (simp add: decode_payload_def Let_def substring_32)
qed

lemma extractable_binary: "list_all isBinDigit (extractable k data)"
  by (simp add: extractable_def bitsUpTo_binary)

lemma message_bits_group:
  assumes "32 + n * 8 \<le> length B" and "j < n"
  shows "take 8 (drop (8 * j) (substring B 32 (32 + n * 8))) = take 8 (drop (32 + 8 * j) B)"
proof -
  from assms(2) obtain m where m: "n = Suc (j + m)" by (auto simp: less_iff_Suc_add)
  have "drop (8 * j) (substring B 32 (32 + n * 8)) = take (8 + 8 * m) (drop (32 + 8 * j) B)"
    by (simp add: substring_32 drop_take m add.commute mult.commute)
  then show ?thesis by simp
qed

lemma encodeLSB_Some:
  "encodeLSB (Some data) P k =
     Inr \<lparr> dataUrl = encode_loop (fullBinary P) k 0 0 data,
           capacity = encode_capacity data k, messageLength = length P \<rparr>"
  by (simp add: encodeLSB_def)

lemma decodeLSB_Some: "decodeLSB (Some data) k = fst (decode_run data k)"
  by (simp add: decodeLSB_def)

lemma encoded_header:
  assumes wf: "length data = 4 * pixels" and k: "0 < k" "k \<le> 8"
    and big: "32 \<le> pixels * 3 * k" and len: "length P < 2 ^ 32"
  shows "take 32 (extractable k (encode_loop (fullBinary P) k 0 0 data)) = lengthHeader P"
proof -
  let ?fb = "fullBinary P"
  let ?B = "extractable k (encode_loop ?fb k 0 0 data)"
  have L: "32 \<le> length ?fb" using fullBinary_length_ge [of P] by simp
  have N: "k * rgbBefore (length data) = pixels * 3 * k"
    by (simp add: wf rgbBefore_pixels)
  have "take (length ?fb) ?B = take (pixels * 3 * k) ?fb"
    using encoded_extractable [OF fullBinary_binary k, of P data] by (simp only: N)
  then have "take 32 (take (length ?fb) ?B) = take 32 (take (pixels * 3 * k) ?fb)" by simp
  with L big have "take 32 ?B = take 32 ?fb" by (simp add: min_def)
  then show ?thesis by (simp add: fullBinary_def lengthHeader_length [OF len])
qed

lemma payload_fits: "(n::nat) * 8 + 32 \<le> m \<Longrightarrow> \<not> (int m - 32) div 8 < int n"
  by linarith

lemma payload_overflows: "m < 32 + 8 * (n::nat) \<Longrightarrow> (int m - 32) div 8 < int n"
  by linarith

lemma decode_oversized:
  assumes wf: "length data = 4 * pixels" and k: "1 \<le> k" "k \<le> 4"
    and big: "32 \<le> pixels * 3 * k" and len: "length P < 2 ^ 32"
    and over: "pixels * 3 * k < 32 + 8 * length P"
  shows "decodeLSB (Some (encode_loop (fullBinary P) k 0 0 data)) k = Inl InvalidHeader"
proof -
  let ?E = "encode_loop (fullBinary P) k 0 0 data"
  from k have k': "0 < k" "k \<le> 8" "k < 32" by simp_all
  have wfE: "length ?E = 4 * pixels" by (simp add: encode_loop_length wf)
  have hdr: "parseInt2 (take 32 (extractable k ?E)) = Some (length P)"
    by (simp add: encoded_header [OF wf k'(1) k'(2) big len] lengthHeader_parse)
  have "fst (decode_run ?E k) = Inl InvalidHeader"
    unfolding decode_run_unfold [OF wfE k'(1) k'(3) big] hdr
    using payload_overflows [OF over] by simp
  then show ?thesis by (simp add: decodeLSB_Some)
qed

section \<open>Capacity of a buffer\<close>

lemma encode_capacity_pixels:
  "length data = 4 * pixels \<Longrightarrow> encode_capacity data k = int (pixels * 3 * k) div 8"
proof -
  assume wf: "length data = 4 * pixels"
  have "(rat_of_nat (length data) * 3 / 4) * rat_of_nat k / 8
      = rat_of_int (int (pixels * 3 * k)) / rat_of_int 8"
    by (simp add: wf)
  then show ?thesis unfolding encode_capacity_def by (simp only: floor_divide_of_int_eq)
qed

lemma capacityBytes_scaled:
  assumes "rat_of_nat W = rat_of_nat width * scale" and "rat_of_nat H = rat_of_nat height * scale"
  shows "capacityBytes width height scale k = max 0 (int (W * H * 3 * k) div 8 - 4)"
proof -
  have "(rat_of_nat width * scale) * (rat_of_nat height * scale) * 3 * rat_of_nat k / 8
      = rat_of_int (int (W * H * 3 * k)) / rat_of_int 8"
    by (simp flip: assms)
  then show ?thesis unfolding capacityBytes_def Let_def by (simp only: floor_divide_of_int_eq)
qed

section \<open>Properties of the codec and of the capacity helper\<close>

text \<open>
  C1 (round trip), as amended. For every pixel buffer of whole pixels, every \<open>k\<close> in
  [1,4] and every non-empty payload \<open>P\<close> of fewer than \<open>2^32\<close> characters, all
  with a character code of at most 255, such that \<open>len(P)*8 + 32\<close> is at most the
  \<open>pixels * 3 * k\<close> usable bits: encoding \<open>P\<close> succeeds and decoding the encoded
  buffer with the same \<open>k\<close> returns exactly \<open>P\<close>.
\<close>

theorem roundtrip_nonempty_single_byte:
  assumes wf: "length data = 4 * pixels" and k: "1 \<le> k" "k \<le> 4"
    and ne: "P \<noteq> []" and lat: "list_all (\<lambda>c. unat c < 256) P"
    and len: "length P < 2 ^ 32"
    and cap: "length P * 8 + 32 \<le> pixels * 3 * k"
  shows "\<exists>r. encodeLSB (Some data) P k = Inr r \<and> decodeLSB (Some (dataUrl r)) k = Inr P"
proof -
  let ?fb = "fullBinary P"
  let ?E = "encode_loop ?fb k 0 0 data"
  let ?B = "extractable k ?E"
  from k have k': "0 < k" "k \<le> 8" "k < 32" by simp_all
  have wfE: "length ?E = 4 * pixels" by (simp add: encode_loop_length wf)
  have big: "32 \<le> pixels * 3 * k" using cap by simp
  have L: "length ?fb = 32 + length P * 8" using fullBinary_length [OF len lat] by simp
  have N: "k * rgbBefore (length data) = pixels * 3 * k"
    by (simp add: wf rgbBefore_pixels)
  have lenB: "length ?B = pixels * 3 * k" by (rule extractable_length [OF k'(1) k'(3) wfE])
  have hdr: "parseInt2 (take 32 ?B) = Some (length P)"
    by (simp add: encoded_header [OF wf k'(1) k'(2) big len] lengthHeader_parse)
  have "take (length ?fb) ?B = take (pixels * 3 * k) ?fb"
    using encoded_extractable [OF fullBinary_binary k'(1) k'(2), of P data] by (simp only: N)
  with cap L have "take (32 + length P * 8) ?B = ?fb" by simp
  then have pay: "substring ?B 32 (32 + length P * 8) = stringToBin P"
    by (simp add: substring_32 fullBinary_def lengthHeader_length [OF len])
  have ok: "\<not> (int (pixels * 3 * k) - 32) div 8 < int (length P)"
    by (rule payload_fits [OF cap])
  have "decode_run ?E k =
     (Inr (binToString (stringToBin P)),
      extract_loop ?E k (32 + length P * 8) (extract_loop ?E k 32 ([], 0)))"
    unfolding decode_run_unfold [OF wfE k'(1) k'(3) big] hdr
    using ne ok cap lenB by (simp add: pay)
  then have "decodeLSB (Some ?E) k = Inr P"
    by (simp add: decodeLSB_Some binToString_stringToBin [OF lat])
  then show ?thesis by (simp add: encodeLSB_Some)
qed

text \<open>
  The amended round trip at the 4 by 4 all-zero buffer, \<open>k = 1\<close> and the payload "A".
\<close>

theorem roundtrip_nonempty_single_byte_witness:
  "length (replicate 64 (0 :: byte)) = 4 * 16 \<and> (1::nat) \<le> 1 \<and> (1::nat) \<le> 4 \<and>
   [65 :: 16 word] \<noteq> [] \<and> list_all (\<lambda>c. unat c < 256) [65 :: 16 word] \<and>
   length [65 :: 16 word] < 2 ^ 32 \<and> length [65 :: 16 word] * 8 + 32 \<le> 16 * 3 * 1 \<and>
   (\<exists>r. encodeLSB (Some (replicate 64 0)) [65] 1 = Inr r \<and>
        decodeLSB (Some (dataUrl r)) 1 = Inr [65])"
  using roundtrip_nonempty_single_byte [of "replicate 64 0" 16 1 "[65]"] by simp

text \<open>
  C1 as stated fails. In the 4 by 4 all-zero buffer with \<open>k = 1\<close> (48 usable bits) the
  empty payload needs 32 bits and the one-character payload U+0100 needs 40 by the claim's
  count: encoding the empty payload leaves the buffer as it is and decoding it raises
  InvalidHeader; encoding U+0100 gives a buffer that decodes to the character U+0080.
\<close>

theorem roundtrip_counterexample:
  "length ([] :: js_string) * 8 + 32 \<le> 16 * 3 * 1 \<and>
   encodeLSB (Some (replicate 64 0)) [] 1 =
     Inr \<lparr>dataUrl = replicate 64 0, capacity = 6, messageLength = 0\<rparr> \<and>
   decodeLSB (Some (replicate 64 0)) 1 = Inl InvalidHeader \<and>
   length [256 :: 16 word] * 8 + 32 \<le> 16 * 3 * 1 \<and>
   encodeLSB (Some (replicate 64 0)) [256] 1 =
     Inr \<lparr>dataUrl =
        [0, 0, 0, 0, 0, 0, 0, 0, 0, 0, 0, 0, 0, 0, 0, 0, 0, 0, 0, 0, 0, 0,
         0, 0, 0, 0, 0, 0, 0, 0, 0, 0, 0, 0, 0, 0, 0, 0, 0, 0, 0, 1, 1, 0,
         0, 0, 0, 0, 0, 0, 0, 0, 0, 0, 0, 0, 0, 0, 0, 0, 0, 0, 0, 0],
        capacity = 6, messageLength = 1\<rparr> \<and>
   decodeLSB (Some
        [0, 0, 0, 0, 0, 0, 0, 0, 0, 0, 0, 0, 0, 0, 0, 0, 0, 0, 0, 0, 0, 0,
         0, 0, 0, 0, 0, 0, 0, 0, 0, 0, 0, 0, 0, 0, 0, 0, 0, 0, 0, 1, 1, 0,
         0, 0, 0, 0, 0, 0, 0, 0, 0, 0, 0, 0, 0, 0, 0, 0, 0, 0, 0, 0]) 1 = Inr [128]"
  by code_simp

text \<open>
  C2 (eight bits per character). \<open>stringToBin\<close> pads each character code to at least
  eight binary digits and never shortens it: the one-character message U+0100 yields nine
  payload bits, and its frame has 41 bits where the claim counts \<open>32 + 8 * 1 = 40\<close>.
\<close>

theorem stringToBin_wide_character:
  "stringToBin [256] = ''100000000'' \<and>
   length (fullBinary [256]) = 41 \<and>
   32 + 8 * length [256 :: 16 word] = 40"
  by code_simp

text \<open>
  C3 (capacity helper). With \<open>W\<close> and \<open>H\<close> the scaled width and height (whole
  numbers), the capacity computed by the application is
  \<open>max(0, floor(W * H * 3 * k / 8) - 4)\<close>, for every \<open>k\<close>; at scale 1 these are the
  width and height themselves. A 10 by 10 image at scale 2, and a 20 by 20 image at scale 1,
  have capacity 146 for \<open>k = 1\<close>.
\<close>

theorem capacityBytes_formula:
  "(rat_of_nat W = rat_of_nat width * scale \<and> rat_of_nat H = rat_of_nat height * scale \<longrightarrow>
      capacityBytes width height scale k = max 0 (int (W * H * 3 * k) div 8 - 4)) \<and>
   capacityBytes W H 1 k = max 0 (int (W * H * 3 * k) div 8 - 4) \<and>
   capacityBytes 20 20 1 1 = 146 \<and>
   capacityBytes 10 10 2 1 = 146"
proof (intro conjI impI)
  assume "rat_of_nat W = rat_of_nat width * scale \<and> rat_of_nat H = rat_of_nat height * scale"
  then show "capacityBytes width height scale k = max 0 (int (W * H * 3 * k) div 8 - 4)"
    by (intro capacityBytes_scaled) simp_all
next
  show "capacityBytes W H 1 k = max 0 (int (W * H * 3 * k) div 8 - 4)"
    by (rule capacityBytes_scaled) simp_all
next
  show "capacityBytes 20 20 1 1 = 146" by (simp add: capacityBytes_def Let_def)
next
  show "capacityBytes 10 10 2 1 = 146" by (simp add: capacityBytes_def Let_def)
qed

theorem capacityBytes_formula_witness:
  "rat_of_nat 20 = rat_of_nat 10 * 2 \<and>
   capacityBytes 10 10 2 1 = max 0 (int (20 * 20 * 3 * 1) div 8 - 4) \<and>
   max 0 (int (20 * 20 * 3 * 1) div 8 - 4) = 146"
  using capacityBytes_formula [of 20 10 2 20 10 1] by simp

text \<open>
  C4 (capacity returned by encode). \<open>encodeLSB\<close> returns
  \<open>floor(pixels * 3 * k / 8)\<close> and does not take off the four header bytes: for the
  4 by 4 buffer with \<open>k = 1\<close> it returns 6, where the header-adjusted capacity, the one
  the application computes, is 2.
\<close>

theorem encodeLSB_capacity_not_header_adjusted:
  "encodeLSB (Some (replicate 64 0)) [65] 1 =
     Inr \<lparr>dataUrl =
        [0, 0, 0, 0, 0, 0, 0, 0, 0, 0, 0, 0, 0, 0, 0, 0, 0, 0, 0, 0, 0, 0,
         0, 0, 0, 0, 0, 0, 0, 0, 0, 0, 0, 0, 0, 0, 0, 0, 0, 0, 0, 1, 0, 0,
         1, 0, 0, 0, 0, 0, 0, 0, 1, 0, 0, 0, 0, 0, 0, 0, 0, 0, 0, 0],
        capacity = 6, messageLength = 1\<rparr> \<and>
   max 0 (int (16 * 3 * 1) div 8 - 4) = (2 :: int) \<and>
   capacityBytes 4 4 1 1 = 2"
  by code_simp

text \<open>
  C5 (frame of encode). For \<open>k\<close> in [1,4] encoding succeeds and keeps the length of the
  buffer; at every index \<open>i\<close> of the buffer: an alpha byte (\<open>(i+1) mod 4 = 0\<close>) is
  unchanged, the bits above the low \<open>k\<close> are unchanged
  (\<open>new[i] & ~(2^k - 1) = old[i] & ~(2^k - 1)\<close>), and a byte reached after the whole
  header and payload bit sequence has been consumed (the \<open>k\<close> bits of each colour byte
  before \<open>i\<close> already cover it) is unchanged.
\<close>

theorem encode_frame:
  assumes k: "1 \<le> k" "k \<le> 4" and i: "i < length data"
  shows "\<exists>r. encodeLSB (Some data) P k = Inr r \<and>
           length (dataUrl r) = length data \<and>
           ((i + 1) mod 4 = 0 \<longrightarrow> dataUrl r ! i = data ! i) \<and>
           dataUrl r ! i AND NOT (2 ^ k - 1) = data ! i AND NOT (2 ^ k - 1) \<and>
           (length (fullBinary P) \<le> k * rgbBefore i \<longrightarrow> dataUrl r ! i = data ! i)"
proof -
  let ?fb = "fullBinary P"
  let ?E = "encode_loop ?fb k 0 0 data"
  let ?c = "chunk ?fb k (k * rgbBefore i)"
  from k have k': "0 < k" "k \<le> 8" by simp_all
  have nth: "?E ! i =
     (if (i + 1) mod 4 \<noteq> 0 \<and> k * rgbBefore i < length ?fb
      then hide k (data ! i) (parseInt2 ?c) else data ! i)"
    using encode_loop_nth [OF i, of ?fb k 0 0] by (simp add: rgbBefore_0)
  have c: "list_all isBinDigit ?c" "?c \<noteq> []" "length ?c = k"
    using k'(1) chunk_length [of ?fb k "k * rgbBefore i"]
    by (auto intro: chunk_binary fullBinary_binary)
  then have p: "parseInt2 ?c = Some (binValue ?c)" by (simp add: parseInt2_binary)
  have v: "binValue ?c < 2 ^ k" using binValue_bound [of ?c] c(3) by simp
  have up: "hide k (data ! i) (parseInt2 ?c) AND NOT (2 ^ k - 1) = data ! i AND NOT (2 ^ k - 1)"
    unfolding p using hide_upper [OF k'(2) v, of "data ! i"] by (simp add: mask_eq_exp_minus_1)
  have "?E ! i AND NOT (2 ^ k - 1) = data ! i AND NOT (2 ^ k - 1)"
    unfolding nth using up by simp
  moreover have "(i + 1) mod 4 = 0 \<longrightarrow> ?E ! i = data ! i" unfolding nth by simp
  moreover have "length ?fb \<le> k * rgbBefore i \<longrightarrow> ?E ! i = data ! i" unfolding nth by simp
  ultimately show ?thesis by (simp add: encodeLSB_Some encode_loop_length)
qed

text \<open>
  The frame property at the last byte of a 4 by 4 buffer of 255s, \<open>k = 1\<close> and the
  payload "A": index 63 is an alpha byte, and the 48 colour bytes before it cover the 40
  bits of the frame.
\<close>

theorem encode_frame_witness:
  "(1::nat) \<le> 1 \<and> (1::nat) \<le> 4 \<and> 63 < length (replicate 64 (255 :: byte)) \<and>
   (63 + 1) mod 4 = (0::nat) \<and> length (fullBinary [65]) \<le> 1 * rgbBefore 63 \<and>
   (\<exists>r. encodeLSB (Some (replicate 64 255)) [65] 1 = Inr r \<and>
        length (dataUrl r) = 64 \<and> dataUrl r ! 63 = 255)"
proof -
  have a: "length (fullBinary [65]) \<le> 1 * rgbBefore 63" by code_simp
  from encode_frame [of 1 63 "replicate 64 255" "[65]"] obtain r where
    "encodeLSB (Some (replicate 64 255)) [65] 1 = Inr r" "length (dataUrl r) = 64"
    "dataUrl r ! 63 = 255"
    by auto
  with a show ?thesis by auto
qed

text \<open>
  C6 (TooSmall). On a buffer of whole pixels, decode raises TooSmall exactly when
  \<open>pixels * 3 * k < 32\<close>, and it does so with the walk still at its start: no byte
  has been read and no bit collected. A buffer with 24 available bits is such a case.
\<close>

theorem decode_TooSmall_iff:
  assumes wf: "length data = 4 * pixels"
  shows "(decodeLSB (Some data) k = Inl TooSmall) = (pixels * 3 * k < 32) \<and>
         (pixels * 3 * k < 32 \<longrightarrow> decode_run data k = (Inl TooSmall, ([], 0)))"
proof (cases "pixels * 3 * k < 32")
  case True
  with decode_run_TooSmall [OF wf True] show ?thesis by (simp add: decodeLSB_Some)
next
  case False
  have "\<not> rat_of_nat (pixels * 3 * k) < rat_of_nat 32"
    using False unfolding of_nat_less_iff .
  then have "\<not> totalAvailableBits data k < 32"
    by (simp add: totalAvailableBits_pixels [OF wf])
  then have "fst (decode_run data k) \<noteq> Inl TooSmall"
    by (simp add: decode_run_def decode_payload_def Let_def split: option.split)
  with False show ?thesis by (simp add: decodeLSB_Some)
qed

text \<open>Eight pixels with \<open>k = 1\<close> provide 24 bits.\<close>

theorem decode_TooSmall_iff_witness:
  "length (replicate 32 (0 :: byte)) = 4 * 8 \<and> 8 * 3 * 1 = (24::nat) \<and> (24::nat) < 32 \<and>
   decodeLSB (Some (replicate 32 0)) 1 = Inl TooSmall \<and>
   decode_run (replicate 32 0) 1 = (Inl TooSmall, ([], 0))"
  using decode_TooSmall_iff [of "replicate 32 0" 8 1] by simp

text \<open>
  C7 (InvalidHeader). On a buffer of whole pixels with at least 32 usable bits and
  \<open>k\<close> in [1,4], decode raises InvalidHeader exactly when the first 32 extractable
  bits, parsed as a binary number, are not a number, or the number is at most 0, or it
  exceeds \<open>floor((pixels * 3 * k - 32) / 8)\<close>; and when it does, the walk stands where
  the extraction of the header left it.
\<close>

theorem decode_InvalidHeader_iff:
  assumes wf: "length data = 4 * pixels" and k: "1 \<le> k" "k \<le> 4"
    and big: "32 \<le> pixels * 3 * k"
  shows "(decodeLSB (Some data) k = Inl InvalidHeader) =
           (case parseInt2 (take 32 (extractable k data)) of
              None \<Rightarrow> True
            | Some n \<Rightarrow> n \<le> 0 \<or> (int (pixels * 3 * k) - 32) div 8 < int n) \<and>
         (decodeLSB (Some data) k = Inl InvalidHeader \<longrightarrow>
            snd (decode_run data k) = extract_loop data k 32 ([], 0))"
proof -
  from k have k': "0 < k" "k < 32" by simp_all
  show ?thesis
    unfolding decodeLSB_Some decode_run_unfold [OF wf k' big]
    by (simp split: option.split)
qed

text \<open>
  The 4 by 4 all-zero buffer with \<open>k = 1\<close>: the header reads 0, and decode stops
  after the 32 header bits, at index 42.
\<close>

theorem decode_InvalidHeader_iff_witness:
  "length (replicate 64 (0 :: byte)) = 4 * 16 \<and> (1::nat) \<le> 1 \<and> (1::nat) \<le> 4 \<and>
   (32::nat) \<le> 16 * 3 * 1 \<and>
   parseInt2 (take 32 (extractable 1 (replicate 64 0))) = Some 0 \<and>
   decodeLSB (Some (replicate 64 0)) 1 = Inl InvalidHeader \<and>
   snd (decode_run (replicate 64 0) 1) = (replicate 32 (CHR ''0''), 42)"
proof -
  have h: "parseInt2 (take 32 (extractable 1 (replicate 64 0))) = Some 0" by code_simp
  have w: "extract_loop (replicate 64 0) 1 32 ([], 0) = (replicate 32 (CHR ''0''), 42)"
    by code_simp
  from decode_InvalidHeader_iff [of "replicate 64 0" 16 1] h
  have "decodeLSB (Some (replicate 64 0)) 1 = Inl InvalidHeader \<and>
        snd (decode_run (replicate 64 0) 1) = extract_loop (replicate 64 0) 1 32 ([], 0)"
    by simp
  with h w show ?thesis by simp
qed

text \<open>
  C8 (Truncated, and success). The end of decode, run with a message length \<open>n\<close>
  after the extraction of the header, raises Truncated exactly when the colour bytes of
  the buffer yield fewer than \<open>32 + n * 8\<close> bits; otherwise it returns \<open>n\<close>
  characters, the \<open>j\<close>-th being the binary value of bits
  \<open>[32 + 8j, 32 + 8j + 8)\<close>. On a buffer of whole pixels with \<open>k\<close> in [1,4],
  when the first 32 extractable bits parse to a length \<open>n\<close> that passes validation,
  this is the outcome of decode, so that decode raises Truncated exactly when fewer than
  \<open>32 + n * 8\<close> bits can be extracted. (A validated length never asks for more bits
  than such a buffer yields; the first part also covers the lengths that do.)
\<close>

theorem decode_payload_Truncated_iff:
  "((fst (decode_payload data k n (extract_loop data k 32 ([], 0))) = Inl Truncated)
      = (length (extractable k data) < 32 + n * 8)) \<and>
   (32 + n * 8 \<le> length (extractable k data) \<longrightarrow>
      (\<exists>cs. fst (decode_payload data k n (extract_loop data k 32 ([], 0))) = Inr cs \<and>
            length cs = n \<and>
            (\<forall>j<n. cs ! j = of_nat (binValue (take 8 (drop (32 + 8 * j) (extractable k data))))))) \<and>
   (length data = 4 * pixels \<and> 1 \<le> k \<and> k \<le> 4 \<and> 32 \<le> pixels * 3 * k \<and>
    parseInt2 (take 32 (extractable k data)) = Some n \<and>
    0 < n \<and> int n \<le> (int (pixels * 3 * k) - 32) div 8 \<longrightarrow>
      decodeLSB (Some data) k = fst (decode_payload data k n (extract_loop data k 32 ([], 0))) \<and>
      (decodeLSB (Some data) k = Inl Truncated) = (length (extractable k data) < 32 + n * 8))"
proof -
  let ?B = "extractable k data"
  let ?w1 = "extract_loop data k 32 ([], 0)"
  let ?s = "substring ?B 32 (32 + n * 8)"
  from phase1_state [of data k] obtain i1 where
    i1: "i1 \<le> length data" "?w1 = (bitsUpTo k data i1, i1)" by blast
  have dp: "fst (decode_payload data k n ?w1) =
      (if length ?B < 32 + n * 8 then Inl Truncated else Inr (binToString ?s))"
    unfolding i1(2) decode_payload_walk [OF i1(1)] by simp
  have trunc: "(fst (decode_payload data k n ?w1) = Inl Truncated) = (length ?B < 32 + n * 8)"
    unfolding dp by simp
  have succ: "\<exists>cs. fst (decode_payload data k n ?w1) = Inr cs \<and> length cs = n \<and>
        (\<forall>j<n. cs ! j = of_nat (binValue (take 8 (drop (32 + 8 * j) ?B))))"
    if enough: "32 + n * 8 \<le> length ?B"
  proof -
    have len: "length ?s = 8 * n" using enough by (simp add: substring_32)
    have bin: "list_all isBinDigit ?s"
      unfolding substring_32 [OF le_add1]
      by (intro list_all_drop list_all_take extractable_binary)
    have "binToString ?s ! j = of_nat (binValue (take 8 (drop (32 + 8 * j) ?B)))" if "j < n" for j
      using binToString_nth [OF len bin that] message_bits_group [OF enough that] by simp
    moreover have "length (binToString ?s) = n" by (rule binToString_length [OF len])
    moreover have "fst (decode_payload data k n ?w1) = Inr (binToString ?s)"
      unfolding dp using enough by simp
    ultimately show ?thesis by blast
  qed
  have link: "decodeLSB (Some data) k = fst (decode_payload data k n ?w1)"
    if h: "length data = 4 * pixels \<and> 1 \<le> k \<and> k \<le> 4 \<and> 32 \<le> pixels * 3 * k \<and>
      parseInt2 (take 32 ?B) = Some n \<and> 0 < n \<and> int n \<le> (int (pixels * 3 * k) - 32) div 8"
  proof -
    from h have wf: "length data = 4 * pixels" and k': "0 < k" "k < 32"
      and big: "32 \<le> pixels * 3 * k" and hdr: "parseInt2 (take 32 ?B) = Some n"
      and valid: "0 < n" "int n \<le> (int (pixels * 3 * k) - 32) div 8" by simp_all
    have "fst (decode_run data k) =
        (if length ?B < 32 + n * 8 then Inl Truncated else Inr (binToString ?s))"
      unfolding decode_run_unfold [OF wf k' big] hdr using valid by simp
    then show ?thesis by (simp add: decodeLSB_Some dp)
  qed
  show ?thesis
  proof (intro conjI impI)
    show "(fst (decode_payload data k n ?w1) = Inl Truncated) = (length ?B < 32 + n * 8)"
      by (rule trunc)
  next
    assume "32 + n * 8 \<le> length ?B"
    then show "\<exists>cs. fst (decode_payload data k n ?w1) = Inr cs \<and> length cs = n \<and>
        (\<forall>j<n. cs ! j = of_nat (binValue (take 8 (drop (32 + 8 * j) ?B))))"
      by (rule succ)
  next
    assume h: "length data = 4 * pixels \<and> 1 \<le> k \<and> k \<le> 4 \<and> 32 \<le> pixels * 3 * k \<and>
      parseInt2 (take 32 ?B) = Some n \<and> 0 < n \<and> int n \<le> (int (pixels * 3 * k) - 32) div 8"
    show "decodeLSB (Some data) k = fst (decode_payload data k n ?w1)" by (rule link [OF h])
    show "(decodeLSB (Some data) k = Inl Truncated) = (length ?B < 32 + n * 8)"
      unfolding link [OF h] by (rule trunc)
  qed
qed

text \<open>
  Two cases with \<open>k = 1\<close> on 4 by 4 buffers (48 extractable bits). For the all-zero
  buffer and a message length of 3, 56 bits are required and the end of decode raises
  Truncated. The buffer that carries "A" (header 1, then \<open>01000001\<close>) passes validation,
  40 bits are required, and decode returns "A".
\<close>

theorem decode_payload_Truncated_iff_witness:
  "length (extractable 1 (replicate 64 (0 :: byte))) < 32 + 3 * 8 \<and>
   fst (decode_payload (replicate 64 0) 1 3 (extract_loop (replicate 64 0) 1 32 ([], 0)))
     = Inl Truncated \<and>
   length
     [0, 0, 0, 0, 0, 0, 0, 0, 0, 0, 0, 0, 0, 0, 0, 0, 0, 0, 0, 0, 0, 0,
      0, 0, 0, 0, 0, 0, 0, 0, 0, 0, 0, 0, 0, 0, 0, 0, 0, 0, 0, 1, 0, 0,
      1, 0, 0, 0, 0, 0, 0, 0, 1, 0, 0, 0, 0, 0, 0, 0, 0, 0, 0, 0 :: byte] = 4 * 16 \<and>
   (32::nat) \<le> 16 * 3 * 1 \<and>
   parseInt2 (take 32 (extractable 1
     [0, 0, 0, 0, 0, 0, 0, 0, 0, 0, 0, 0, 0, 0, 0, 0, 0, 0, 0, 0, 0, 0,
      0, 0, 0, 0, 0, 0, 0, 0, 0, 0, 0, 0, 0, 0, 0, 0, 0, 0, 0, 1, 0, 0,
      1, 0, 0, 0, 0, 0, 0, 0, 1, 0, 0, 0, 0, 0, 0, 0, 0, 0, 0, 0])) = Some 1 \<and>
   int 1 \<le> (int (16 * 3 * 1) - 32) div 8 \<and>
   32 + 1 * 8 \<le> length (extractable 1
     [0, 0, 0, 0, 0, 0, 0, 0, 0, 0, 0, 0, 0, 0, 0, 0, 0, 0, 0, 0, 0, 0,
      0, 0, 0, 0, 0, 0, 0, 0, 0, 0, 0, 0, 0, 0, 0, 0, 0, 0, 0, 1, 0, 0,
      1, 0, 0, 0, 0, 0, 0, 0, 1, 0, 0, 0, 0, 0, 0, 0, 0, 0, 0, 0 :: byte]) \<and>
   decodeLSB (Some
     [0, 0, 0, 0, 0, 0, 0, 0, 0, 0, 0, 0, 0, 0, 0, 0, 0, 0, 0, 0, 0, 0,
      0, 0, 0, 0, 0, 0, 0, 0, 0, 0, 0, 0, 0, 0, 0, 0, 0, 0, 0, 1, 0, 0,
      1, 0, 0, 0, 0, 0, 0, 0, 1, 0, 0, 0, 0, 0, 0, 0, 0, 0, 0, 0]) 1 = Inr [65]"
proof -
  define z :: "byte list" where "z = replicate 64 0"
  define d :: "byte list" where "d =
     [0, 0, 0, 0, 0, 0, 0, 0, 0, 0, 0, 0, 0, 0, 0, 0, 0, 0, 0, 0, 0, 0,
      0, 0, 0, 0, 0, 0, 0, 0, 0, 0, 0, 0, 0, 0, 0, 0, 0, 0, 0, 1, 0, 0,
      1, 0, 0, 0, 0, 0, 0, 0, 1, 0, 0, 0, 0, 0, 0, 0, 0, 0, 0, 0]"
  have short: "length (extractable 1 z) < 32 + 3 * 8" unfolding z_def by code_simp
  from decode_payload_Truncated_iff [of z 1 3] short
  have t: "fst (decode_payload z 1 3 (extract_loop z 1 32 ([], 0))) = Inl Truncated"
    by blast
  have l: "length d = 4 * 16" unfolding d_def by simp
  have h: "parseInt2 (take 32 (extractable 1 d)) = Some 1" unfolding d_def by code_simp
  have e: "32 + 1 * 8 \<le> length (extractable 1 d)" unfolding d_def by code_simp
  have c: "of_nat (binValue (take 8 (drop (32 + 8 * 0) (extractable 1 d)))) = (65 :: 16 word)"
    unfolding d_def by code_simp
  have v: "int 1 \<le> (int (16 * 3 * 1) - 32) div 8" by simp
  have hyps: "length d = 4 * 16 \<and> (1::nat) \<le> 1 \<and> (1::nat) \<le> 4 \<and> 32 \<le> 16 * 3 * (1::nat) \<and>
      parseInt2 (take 32 (extractable 1 d)) = Some 1 \<and> (0::nat) < 1 \<and>
      int 1 \<le> (int (16 * 3 * 1) - 32) div 8"
    using l h v by simp
  from decode_payload_Truncated_iff [of d 1 1 16] e hyps obtain cs where
    cs: "decodeLSB (Some d) 1 = Inr cs" "length cs = 1"
      "\<forall>j<1. cs ! j = of_nat (binValue (take 8 (drop (32 + 8 * j) (extractable 1 d))))"
    by metis
  from cs(3) c have "cs ! 0 = 65" by simp
  with cs(2) have "cs = [65]" by (cases cs) auto
  with cs(1) have r: "decodeLSB (Some d) 1 = Inr [65]" by simp
  from short t l h v e r show ?thesis unfolding z_def d_def by simp
qed

text \<open>
  C9 (payload larger than the capacity). On a canvas with a context and a buffer of whole
  pixels, with \<open>k\<close> in [1,4], when the frame needs more than the
  \<open>pixels * 3 * k\<close> usable bits, encode still succeeds, keeps the length of the buffer, and the bits the buffer then yields are
  the first \<open>pixels * 3 * k\<close> bits of the frame. In the all-zero 4 by 4 buffer with
  \<open>k = 1\<close>, decoding after encoding any 10-character payload raises InvalidHeader.
\<close>

theorem encode_overflow_truncates:
  "(length data = 4 * pixels \<and> 1 \<le> k \<and> k \<le> 4 \<and> pixels * 3 * k < 32 + 8 * length P \<longrightarrow>
      (\<exists>r. encodeLSB (Some data) P k = Inr r \<and>
           length (dataUrl r) = length data \<and>
           extractable k (dataUrl r) = take (pixels * 3 * k) (fullBinary P))) \<and>
   (length Q = 10 \<longrightarrow>
      (\<exists>r. encodeLSB (Some (replicate 64 0)) Q 1 = Inr r \<and>
           decodeLSB (Some (dataUrl r)) 1 = Inl InvalidHeader))"
proof (intro conjI impI)
  assume a: "length data = 4 * pixels \<and> 1 \<le> k \<and> k \<le> 4 \<and> pixels * 3 * k < 32 + 8 * length P"
  let ?fb = "fullBinary P"
  let ?E = "encode_loop ?fb k 0 0 data"
  from a have wf: "length data = 4 * pixels" and k': "0 < k" "k \<le> 8" "k < 32" by simp_all
  have wfE: "length ?E = 4 * pixels" by (simp add: encode_loop_length wf)
  have N: "k * rgbBefore (length data) = pixels * 3 * k"
    by (simp add: wf rgbBefore_pixels)
  have lenB: "length (extractable k ?E) = pixels * 3 * k"
    by (rule extractable_length [OF k'(1) k'(3) wfE])
  have "take (length ?fb) (extractable k ?E) = take (pixels * 3 * k) ?fb"
    using encoded_extractable [OF fullBinary_binary k'(1) k'(2), of P data] by (simp only: N)
  moreover have "length (extractable k ?E) \<le> length ?fb"
    using a fullBinary_length_ge [of P] lenB by simp
  ultimately have "extractable k ?E = take (pixels * 3 * k) ?fb" by simp
  then show "\<exists>r. encodeLSB (Some data) P k = Inr r \<and>
           length (dataUrl r) = length data \<and>
           extractable k (dataUrl r) = take (pixels * 3 * k) (fullBinary P)"
    by (simp add: encodeLSB_Some encode_loop_length)
next
  assume q: "length Q = 10"
  have "decodeLSB (Some (encode_loop (fullBinary Q) 1 0 0 (replicate 64 0))) 1 = Inl InvalidHeader"
    by (rule decode_oversized [where pixels = 16]) (simp_all add: q)
  then show "\<exists>r. encodeLSB (Some (replicate 64 0)) Q 1 = Inr r \<and>
           decodeLSB (Some (dataUrl r)) 1 = Inl InvalidHeader"
    by (simp add: encodeLSB_Some)
qed

text \<open>The ten digits "0123456789" in the all-zero 4 by 4 buffer, \<open>k = 1\<close>.\<close>

theorem encode_overflow_truncates_witness:
  "length (replicate 64 (0 :: byte)) = 4 * 16 \<and> (1::nat) \<le> 1 \<and> (1::nat) \<le> 4 \<and>
   16 * 3 * 1 < 32 + 8 * length [48, 49, 50, 51, 52, 53, 54, 55, 56, 57 :: 16 word] \<and>
   length [48, 49, 50, 51, 52, 53, 54, 55, 56, 57 :: 16 word] = 10 \<and>
   (\<exists>r. encodeLSB (Some (replicate 64 0)) [48, 49, 50, 51, 52, 53, 54, 55, 56, 57] 1 = Inr r \<and>
        length (dataUrl r) = 64 \<and>
        extractable 1 (dataUrl r) = take 48 (fullBinary [48, 49, 50, 51, 52, 53, 54, 55, 56, 57]) \<and>
        decodeLSB (Some (dataUrl r)) 1 = Inl InvalidHeader)"
  using encode_overflow_truncates
    [of "replicate 64 0" 16 1 "[48, 49, 50, 51, 52, 53, 54, 55, 56, 57]"
        "[48, 49, 50, 51, 52, 53, 54, 55, 56, 57]"]
  by (auto simp: encodeLSB_Some)

text \<open>
  C10 (empty payload). On a buffer of whole pixels with at least 32 usable bits and
  \<open>k\<close> in [1,4], encoding the empty payload succeeds and the first 32 bits of the
  encoded buffer are all zero; decoding that buffer raises InvalidHeader.
\<close>

theorem empty_payload_unrecoverable:
  assumes wf: "length data = 4 * pixels" and k: "1 \<le> k" "k \<le> 4"
    and big: "32 \<le> pixels * 3 * k"
  shows "\<exists>r. encodeLSB (Some data) [] k = Inr r \<and>
           take 32 (extractable k (dataUrl r)) = replicate 32 (CHR ''0'') \<and>
           decodeLSB (Some (dataUrl r)) k = Inl InvalidHeader"
proof -
  let ?E = "encode_loop (fullBinary []) k 0 0 data"
  from k have k': "0 < k" "k \<le> 8" "k < 32" by simp_all
  have wfE: "length ?E = 4 * pixels" by (simp add: encode_loop_length wf)
  have h: "take 32 (extractable k ?E) = lengthHeader []"
    by (rule encoded_header [OF wf k'(1) k'(2) big]) simp
  have z: "lengthHeader [] = replicate 32 (CHR ''0'')"
    by code_simp
  have p: "parseInt2 (take 32 (extractable k ?E)) = Some 0"
    unfolding h using lengthHeader_parse [of "[]"] by simp
  have "fst (decode_run ?E k) = Inl InvalidHeader"
    unfolding decode_run_unfold [OF wfE k'(1) k'(3) big] p by simp
  with h z show ?thesis by (simp add: encodeLSB_Some decodeLSB_Some)
qed

text \<open>A 4 by 4 buffer of 255s with \<open>k = 2\<close> (96 usable bits).\<close>

theorem empty_payload_unrecoverable_witness:
  "length (replicate 64 (255 :: byte)) = 4 * 16 \<and> (1::nat) \<le> 2 \<and> (2::nat) \<le> 4 \<and>
   (32::nat) \<le> 16 * 3 * 2 \<and>
   (\<exists>r. encodeLSB (Some (replicate 64 255)) [] 2 = Inr r \<and>
        take 32 (extractable 2 (dataUrl r)) = replicate 32 (CHR ''0'') \<and>
        decodeLSB (Some (dataUrl r)) 2 = Inl InvalidHeader)"
  using empty_payload_unrecoverable [of "replicate 64 255" 16 2] by simp

end
